theory Spec2Isabelle
  imports Main
begin

section \<open>The data-quality flag decomposition of the Roman ASDF notebook\<close>

text \<open>
  The notebook on opening Roman data files prints, for every distinct value of the
  data-quality array, the bits that are set in it:
  \<^verbatim>\<open>
  for uu in unique_dq:
      br = np.binary_repr(uu)
      print("------------")
      print('Flag', uu)
      for ii, cc in enumerate(br[::-1]):
          if int(cc)==1:
              print('Bits on:', ii, 2**ii)
  \<close>
  Python integers are unbounded, so a flag value is an \<open>int\<close>; positions are
  \<open>nat\<close>; the string \<open>br\<close> is a \<open>string\<close>. The body of the outer loop is
  \<open>bits_on\<close>, whose result is the list of pairs \<open>(ii, 2**ii)\<close> in the order the
  lines \<open>Bits on: ii 2**ii\<close> are printed, or the exception that ends the loop.
\<close>

subsection \<open>Embedding\<close>

datatype error = ValueError

text \<open>
  Python's \<open>bin(n)[2:]\<close> for a natural number: the binary digits, most significant
  first, a single \<open>0\<close> for zero.
\<close>

fun bin_digits :: "nat \<Rightarrow> string" where
  "bin_digits n =
     (if n < 2 then [if n = 1 then CHR ''1'' else CHR ''0'']
      else bin_digits (n div 2) @ [if n mod 2 = 1 then CHR ''1'' else CHR ''0''])"

declare bin_digits.simps [simp del]

text \<open>
  Modelled from the spec: \<open>np.binary_repr\<close> belongs to numpy and is not among the
  sources of the repository; the notebook calls it with one argument (no width), and
  the property calls its result the binary representation of the flag value. For
  zero it is \<open>0\<close>, for a positive number the binary digits without leading zeros,
  and for a negative number without a width a minus sign before the digits of the
  absolute value.
\<close>

definition binary_repr :: "int \<Rightarrow> string" where
  "binary_repr num =
     (if num = 0 then ''0''
      else if num > 0 then bin_digits (nat num)
      else CHR ''-'' # bin_digits (nat (- num)))"

text \<open>
  Python's \<open>int(cc)\<close> on a string of one character: the value of a decimal digit
  (codes 48 to 57), and \<open>ValueError\<close> on anything else, the minus sign included.
\<close>

definition int_of_char :: "char \<Rightarrow> error + int" where
  "int_of_char cc =
     (let code = (of_char cc :: nat)
      in if 48 \<le> code \<and> code \<le> 57 then Inr (int code - 48) else Inl ValueError)"

text \<open>
  The inner loop over \<open>enumerate(br[::-1])\<close>. The second argument collects the
  lines printed so far; an exception of \<open>int(cc)\<close> leaves the loop.
\<close>

fun bits_loop :: "(nat \<times> char) list \<Rightarrow> (nat \<times> int) list \<Rightarrow> error + (nat \<times> int) list" where
  "bits_loop [] out = Inr out"
| "bits_loop ((ii, cc) # rest) out =
     (case int_of_char cc of
        Inl e \<Rightarrow> Inl e
      | Inr d \<Rightarrow> bits_loop rest (if d = 1 then out @ [(ii, 2 ^ ii)] else out))"

definition bits_on :: "int \<Rightarrow> error + (nat \<times> int) list" where
  "bits_on uu = (let br = binary_repr uu in bits_loop (enumerate 0 (rev br)) [])"

subsection \<open>Auxiliary notions for the proofs\<close>

definition is_bin :: "char \<Rightarrow> bool" where
  "is_bin c \<longleftrightarrow> c = CHR ''0'' \<or> c = CHR ''1''"

text \<open>The indices, counted from \<open>k\<close>, at which a string holds the character \<open>1\<close>.\<close>

definition on_positions :: "nat \<Rightarrow> string \<Rightarrow> nat list" where
  "on_positions k cs = map fst (filter (\<lambda>p. snd p = CHR ''1'') (enumerate k cs))"

subsection \<open>The loop on strings of binary digits\<close>

lemma int_of_char_bin [simp]:
  "int_of_char CHR ''0'' = Inr 0" "int_of_char CHR ''1'' = Inr 1"
  by (simp_all add: int_of_char_def)

lemma on_positions_Nil [simp]: "on_positions k [] = []"
  by (simp add: on_positions_def)

lemma on_positions_Cons [simp]:
  "on_positions k (c # cs) = (if c = CHR ''1'' then [k] else []) @ on_positions (Suc k) cs"
  by (simp add: on_positions_def)

lemma bits_loop_bin:
  "\<forall>c \<in> set cs. is_bin c \<Longrightarrow>
   bits_loop (enumerate k cs) out = Inr (out @ map (\<lambda>i. (i, 2 ^ i)) (on_positions k cs))"
  by (induction cs arbitrary: k out) (auto simp: is_bin_def)

subsection \<open>The digits of a number, least significant first\<close>

lemma rev_bin_digits:
  "rev (bin_digits n) =
     (if n mod 2 = 1 then CHR ''1'' else CHR ''0'') # (if n < 2 then [] else rev (bin_digits (n div 2)))"
  by (subst bin_digits.simps) auto

lemma bin_digits_is_bin: "\<forall>c \<in> set (bin_digits n). is_bin c"
  by (induction n rule: bin_digits.induct) (subst bin_digits.simps, auto simp: is_bin_def)

lemma on_positions_lower: "i \<in> set (on_positions k cs) \<Longrightarrow> k \<le> i"
proof (induction cs arbitrary: k)
  case Nil
  then show ?case by simp
next
  case (Cons c cs)
  from Cons.prems have "i = k \<or> i \<in> set (on_positions (Suc k) cs)"
    by (auto split: if_splits)
  then show ?case
    using Cons.IH [of "Suc k"] by auto
qed

lemma on_positions_sorted: "sorted_wrt (<) (on_positions k cs)"
proof (induction cs arbitrary: k)
  case Nil
  show ?case by simp
next
  case (Cons c cs)
  have "\<forall>i \<in> set (on_positions (Suc k) cs). k < i"
    by (auto dest!: on_positions_lower)
  with Cons.IH [of "Suc k"] show ?case by simp
qed

lemma on_positions_sum:
  "(\<Sum>i\<leftarrow>on_positions k (rev (bin_digits n)). (2::int) ^ i) = 2 ^ k * int n"
proof (induction n arbitrary: k rule: bin_digits.induct)
  case (1 n)
  show ?case
  proof (cases "n < 2")
    case True
    then have "n = 0 \<or> n = 1" by auto
    then show ?thesis by (subst rev_bin_digits) auto
  next
    case False
    have "int n = int (2 * (n div 2) + n mod 2)" by simp
    then have split: "int n = 2 * int (n div 2) + int (n mod 2)"
      by (simp only: of_nat_add of_nat_mult of_nat_numeral)
    have IH: "(\<Sum>i\<leftarrow>on_positions (Suc k) (rev (bin_digits (n div 2))). (2::int) ^ i)
                = 2 ^ Suc k * int (n div 2)"
      by (rule 1 [OF False])
    have "(\<Sum>i\<leftarrow>on_positions k (rev (bin_digits n)). (2::int) ^ i)
            = (if n mod 2 = 1 then 2 ^ k else 0) + 2 ^ Suc k * int (n div 2)"
      using False IH by (subst rev_bin_digits) simp
    also have "\<dots> = 2 ^ k * (2 * int (n div 2) + int (n mod 2))"
      by (cases "n mod 2 = 1") (auto simp: algebra_simps)
    finally show ?thesis using split by simp
  qed
qed

lemma on_positions_bits:
  "set (on_positions k (rev (bin_digits n))) = {i. k \<le> i \<and> bit n (i - k)}"
proof (induction n arbitrary: k rule: bin_digits.induct)
  case (1 n)
  have bit_step: "bit n j \<longleftrightarrow> (if j = 0 then n mod 2 = 1 else bit (n div 2) (j - 1))" for j
    by (cases j) (auto simp: bit_0 bit_Suc odd_iff_mod_2_eq_one)
  show ?case
  proof (cases "n < 2")
    case True
    then have "n = 0 \<or> n = 1" by auto
    then show ?thesis
      by (subst rev_bin_digits) (auto simp: bit_Suc_0_iff)
  next
    case False
    have IH: "set (on_positions (Suc k) (rev (bin_digits (n div 2))))
                = {i. Suc k \<le> i \<and> bit (n div 2) (i - Suc k)}"
      by (rule 1 [OF False])
    have "set (on_positions k (rev (bin_digits n)))
            = (if n mod 2 = 1 then {k} else {}) \<union> {i. Suc k \<le> i \<and> bit (n div 2) (i - Suc k)}"
      using False IH by (subst rev_bin_digits) simp
    also have "\<dots> = {i. k \<le> i \<and> bit n (i - k)}"
    proof (rule set_eqI)
      fix i
      show "i \<in> (if n mod 2 = 1 then {k} else {}) \<union> {i. Suc k \<le> i \<and> bit (n div 2) (i - Suc k)}
              \<longleftrightarrow> i \<in> {i. k \<le> i \<and> bit n (i - k)}"
      proof (cases "i \<le> k")
        case True
        then show ?thesis using bit_step [of 0] by auto
      next
        case False
        then have "i - k \<noteq> 0" "i - k - 1 = i - Suc k" "Suc k \<le> i" "k \<le> i" "i \<noteq> k"
          by auto
        then show ?thesis using bit_step [of "i - k"] by (auto split: if_splits)
      qed
    qed
    finally show ?thesis .
  qed
qed

subsection \<open>The decomposition of a non-negative flag value\<close>

lemma bits_on_nonneg:
  assumes "0 \<le> u"
  shows "bits_on u = Inr (map (\<lambda>i. (i, 2 ^ i)) (on_positions 0 (rev (binary_repr u))))"
    and "set (on_positions 0 (rev (binary_repr u))) = {i. bit u i}"
    and "(\<Sum>i\<leftarrow>on_positions 0 (rev (binary_repr u)). (2::int) ^ i) = u"
proof -
  have bin: "\<forall>c \<in> set (rev (binary_repr u)). is_bin c"
    using assms bin_digits_is_bin [of "nat u"] by (auto simp: binary_repr_def is_bin_def)
  show "bits_on u = Inr (map (\<lambda>i. (i, 2 ^ i)) (on_positions 0 (rev (binary_repr u))))"
    using bits_loop_bin [OF bin, of 0 "[]"] by (simp add: bits_on_def)
  show "set (on_positions 0 (rev (binary_repr u))) = {i. bit u i}"
  proof (cases "u = 0")
    case True
    then show ?thesis by (simp add: binary_repr_def)
  next
    case False
    with assms have "bit u i \<longleftrightarrow> bit (nat u) i" for i
      by (metis bit_nat_iff)
    with False assms on_positions_bits [of 0 "nat u"] show ?thesis
      by (simp add: binary_repr_def)
  qed
  show "(\<Sum>i\<leftarrow>on_positions 0 (rev (binary_repr u)). (2::int) ^ i) = u"
    using assms on_positions_sum [of 0 "nat u"] by (cases "u = 0") (simp_all add: binary_repr_def)
qed

text \<open>
  Examples: the flag 37 prints the bits 0, 2 and 5; a negative number, which the
  unsigned data-quality array cannot hold, would end the loop with \<open>ValueError\<close> at
  the minus sign, after the lines of the digits.
\<close>

lemma bits_on_37: "bits_on 37 = Inr [(0, 1), (2, 4), (5, 32)]"
  by code_simp

lemma bits_on_negative: "bits_on (- 5) = Inl ValueError"
  by code_simp

text \<open>
  C10. For every non-negative integer data-quality flag value \<open>u\<close>, the
  bit-decomposition loop (which enumerates the reversed binary representation of \<open>u\<close>
  and collects each position whose character is 1) ends without an exception and
  yields exactly the positions of the bits set in \<open>u\<close>, each once and in increasing
  order, each printed beside its power of two; these powers of two sum to \<open>u\<close>, so
  the printed decomposition is a lossless round trip of the flag value.
\<close>

theorem bit_decomposition_roundtrip:
  "0 \<le> u \<Longrightarrow>
   \<exists>ps. bits_on u = Inr ps
      \<and> set (map fst ps) = {i. bit u i}
      \<and> sorted_wrt (<) (map fst ps)
      \<and> map snd ps = map (\<lambda>i. 2 ^ i) (map fst ps)
      \<and> sum_list (map snd ps) = u"
proof -
  assume nonneg: "0 \<le> u"
  let ?is = "on_positions 0 (rev (binary_repr u))"
  let ?ps = "map (\<lambda>i. (i, (2::int) ^ i)) ?is"
  have fst: "map fst ?ps = ?is" by (simp add: comp_def)
  have snd: "map snd ?ps = map (\<lambda>i. 2 ^ i) ?is" by (simp add: comp_def)
  have "bits_on u = Inr ?ps" using nonneg by (rule bits_on_nonneg(1))
  moreover have "set (map fst ?ps) = {i. bit u i}"
    unfolding fst using nonneg by (rule bits_on_nonneg(2))
  moreover have "sorted_wrt (<) (map fst ?ps)"
    unfolding fst by (rule on_positions_sorted)
  moreover have "map snd ?ps = map (\<lambda>i. 2 ^ i) (map fst ?ps)"
    unfolding fst snd ..
  moreover have "sum_list (map snd ?ps) = u"
    unfolding snd using nonneg by (rule bits_on_nonneg(3))
  ultimately show ?thesis by blast
qed

theorem bit_decomposition_roundtrip_witness:
  "(0::int) \<le> 37 \<and>
   (\<exists>ps. bits_on 37 = Inr ps
      \<and> set (map fst ps) = {i. bit (37::int) i}
      \<and> sorted_wrt (<) (map fst ps)
      \<and> map snd ps = map (\<lambda>i. 2 ^ i) (map fst ps)
      \<and> sum_list (map snd ps) = 37)"
  using bit_decomposition_roundtrip [of 37] by simp

end
